theory Spec2Isabelle
  imports Main "HOL-Library.AList" "HOL-Library.Sublist"
begin

section \<open>Data model of \<open>custom-style-interface.js\<close>\<close>

text \<open>
  JavaScript objects are identified by reference. Style elements and style providers live
  in one store (\<open>heap\<close>), \<open>CustomStyleInterface\<close> instances in another (\<open>registries\<close>);
  functions (the host's callbacks) are identified by reference as well.

  The callbacks, the getters of providers and the import scheduler are host code, outside
  the module. A call of one of them is recorded in a trace, with its arguments; what a
  getter returns is a field of the provider, which the host may change between calls of
  the module. The callbacks do not call back into the module while it runs: whatever the
  host does, it does as a step of its own between the module's calls.
\<close>

type_synonym ref = nat

type_synonym inst = nat

type_synonym fn = nat

text \<open>
  What the module reads and writes on a style element or provider object:
  the two markers \<open>__seenByShadyCSS\<close> and \<open>__processedByShadyCSS\<close> (absent reads as false),
  the \<open>getStyle\<close> property (\<open>None\<close>: the object has no such method; \<open>Some r\<close>: a method whose
  call yields \<open>r\<close>, with \<open>None\<close> for a null or undefined result), the \<open>__appliedElement\<close>
  property and the element's attributes as (name, value) pairs in document order.
\<close>

record obj =
  seenByShadyCSS :: bool
  processedByShadyCSS :: bool
  getStyle :: "ref option option"
  appliedElement :: "ref option"
  attributes :: "(string \<times> string) list"

text \<open>The fields the constructor gives an instance.\<close>

record registry =
  customStyles :: "ref list"
  enqueued :: bool

text \<open>
  A promise as far as the module uses one: whether it is resolved and the callbacks
  registered with \<open>then\<close> that wait for it.
\<close>

record promise =
  settled :: bool
  reactions :: "fn list"

datatype ready_state = Loading | Interactive | Complete

text \<open>
  The calls the module makes to code outside it, in the order they happen. Each entry
  records the arguments of the call; the entries made inside \<open>findStyles\<close> also record
  the \<open>customStyle\<close> being handled and the scheduling entries the instance (\<open>this\<close>)
  executing \<open>enqueueDocumentValidation\<close>. \<open>ValidateCall\<close> is the scheduler or the promise
  job invoking the validator it was given.
\<close>

datatype event =
    WhenReadyCall inst fn
  | ThenCall inst fn
  | GetStyleCall ref
  | SetAttributeCall ref ref string string
  | TransformCall ref fn ref
  | ValidateCall fn

text \<open>
  The whole state: the two stores, the four module-level variables (\<open>readyPromise\<close>,
  \<open>whenReady\<close>, \<open>transformFn\<close>, \<open>validateFn\<close>), and the part of the host environment the
  module talks to: \<open>document.readyState\<close>, whether the module's \<open>readystatechange\<close>
  listener is installed, the callbacks handed to the import-readiness scheduler, the
  queue of promise jobs, and the trace of calls.
  \<open>whenReady\<close> is \<open>True\<close> when \<open>HTMLImports.whenReady\<close> existed at module load.
\<close>

record world =
  heap :: "ref \<Rightarrow> obj"
  registries :: "inst \<Rightarrow> registry"
  readyPromise :: "promise option"
  whenReady :: bool
  transformFn :: "fn option"
  validateFn :: "fn option"
  readyState :: ready_state
  readyListener :: bool
  importsQueue :: "fn list"
  microtasks :: "fn list"
  trace :: "event list"

section \<open>Module load and the host environment\<close>

text \<open>
  Module load: \<open>readyPromise\<close>, \<open>transformFn\<close> and \<open>validateFn\<close> start as null, \<open>whenReady\<close>
  is taken from the window. No instance has been built yet, so every address holds the
  state the constructor would give it.
\<close>

definition loadModule :: "(ref \<Rightarrow> obj) \<Rightarrow> bool \<Rightarrow> ready_state \<Rightarrow> world" where
  "loadModule h imports st =
     \<lparr> heap = h,
       registries = (\<lambda>_. \<lparr> customStyles = [], enqueued = False \<rparr>),
       readyPromise = None,
       whenReady = imports,
       transformFn = None,
       validateFn = None,
       readyState = st,
       readyListener = False,
       importsQueue = [],
       microtasks = [],
       trace = [] \<rparr>"

definition emit :: "event \<Rightarrow> world \<Rightarrow> world" where
  "emit e w = w\<lparr> trace := trace w @ [e] \<rparr>"

text \<open>
  Modelled from the spec: the import-readiness scheduler \<open>HTMLImports.whenReady\<close>, which is
  not part of the source. It accepts a zero-argument callback and invokes it when import
  processing is complete: the callback is queued, and \<open>importsReady\<close> runs the queue.
\<close>

definition callWhenReady :: "inst \<Rightarrow> fn \<Rightarrow> world \<Rightarrow> world" where
  "callWhenReady this f w =
     emit (WhenReadyCall this f) (w\<lparr> importsQueue := importsQueue w @ [f] \<rparr>)"

definition importsReady :: "world \<Rightarrow> world" where
  "importsReady w =
     w\<lparr> importsQueue := [], trace := trace w @ map ValidateCall (importsQueue w) \<rparr>"

text \<open>
  The promise operations of the language: \<open>resolveFn()\<close> settles the promise once and
  queues a job for every waiting callback; \<open>readyPromise.then(f)\<close> queues a job at once
  on a settled promise and waits otherwise; \<open>runMicrotask\<close> runs the first queued job.
\<close>

definition resolveFn :: "world \<Rightarrow> world" where
  "resolveFn w =
     (case readyPromise w of
        None \<Rightarrow> w
      | Some pr \<Rightarrow>
          if settled pr then w
          else w\<lparr> readyPromise := Some \<lparr> settled = True, reactions = [] \<rparr>,
                  microtasks := microtasks w @ reactions pr \<rparr>)"

definition promiseThen :: "inst \<Rightarrow> fn \<Rightarrow> world \<Rightarrow> world" where
  "promiseThen this f w =
     (case readyPromise w of
        None \<Rightarrow> w
      | Some pr \<Rightarrow>
          emit (ThenCall this f)
            (if settled pr then w\<lparr> microtasks := microtasks w @ [f] \<rparr>
             else w\<lparr> readyPromise := Some (pr\<lparr> reactions := reactions pr @ [f] \<rparr>) \<rparr>))"

definition runMicrotask :: "world \<Rightarrow> world" where
  "runMicrotask w =
     (case microtasks w of
        [] \<Rightarrow> w
      | f # fs \<Rightarrow> emit (ValidateCall f) (w\<lparr> microtasks := fs \<rparr>))"

text \<open>
  The document changes \<open>readyState\<close> and dispatches \<open>readystatechange\<close>; the module's
  listener, when installed, resolves the promise if the state is \<open>complete\<close>.
\<close>

definition readyStateChange :: "ready_state \<Rightarrow> world \<Rightarrow> world" where
  "readyStateChange st w =
     (let w1 = w\<lparr> readyState := st \<rparr> in
      if readyListener w1 then (if readyState w1 = Complete then resolveFn w1 else w1)
      else w1)"

text \<open>
  \<open>el.setAttribute(name, value)\<close>: the attribute of that name gets the value, and is added
  after the others when the element does not have it.
\<close>

definition setAttribute :: "ref \<Rightarrow> ref \<Rightarrow> string \<Rightarrow> string \<Rightarrow> world \<Rightarrow> world" where
  "setAttribute customStyle el name val w =
     emit (SetAttributeCall customStyle el name val)
       (w\<lparr> heap := (heap w)(el := (heap w el)
              \<lparr> attributes := AList.update name val (attributes (heap w el)) \<rparr>) \<rparr>)"

text \<open>
  Host code changing an object between calls of the module: its \<open>getStyle\<close> method, its
  \<open>__appliedElement\<close> and its attributes. The two markers belong to the module.
\<close>

definition hostUpdate ::
  "ref \<Rightarrow> ref option option \<Rightarrow> ref option \<Rightarrow> (string \<times> string) list \<Rightarrow> world \<Rightarrow> world" where
  "hostUpdate r g a attrs w =
     w\<lparr> heap := (heap w)(r := (heap w r)
          \<lparr> getStyle := g, appliedElement := a, attributes := attrs \<rparr>) \<rparr>"

section \<open>The class \<open>CustomStyleInterface\<close>\<close>

definition constructor :: "inst \<Rightarrow> world \<Rightarrow> world" where
  "constructor this w =
     w\<lparr> registries := (registries w)(this := \<lparr> customStyles = [], enqueued = False \<rparr>) \<rparr>"

definition enqueueDocumentValidation :: "inst \<Rightarrow> world \<Rightarrow> world" where
  "enqueueDocumentValidation this w =
     (if enqueued (registries w this) then w
      else
        (case validateFn w of
           None \<Rightarrow> w
         | Some f \<Rightarrow>
             (let w1 = w\<lparr> registries := (registries w)(this := (registries w this)
                           \<lparr> enqueued := True \<rparr>) \<rparr>
              in if whenReady w1 then callWhenReady this f w1
                 else
                   (let w2 =
                      (if readyPromise w1 = None then
                         (let w3 = w1\<lparr> readyPromise :=
                                         Some \<lparr> settled = False, reactions = [] \<rparr> \<rparr>
                          in if readyState w3 = Complete then resolveFn w3
                             else w3\<lparr> readyListener := True \<rparr>)
                       else w1)
                    in promiseThen this f w2))))"

definition addCustomStyle :: "inst \<Rightarrow> ref \<Rightarrow> world \<Rightarrow> world" where
  "addCustomStyle this style w =
     (if \<not> seenByShadyCSS (heap w style) then
        let w1 = w\<lparr> heap := (heap w)(style := (heap w style)\<lparr> seenByShadyCSS := True \<rparr>) \<rparr>;
            w2 = w1\<lparr> registries := (registries w1)(this := (registries w1 this)
                      \<lparr> customStyles := customStyles (registries w1 this) @ [style] \<rparr>) \<rparr>
        in enqueueDocumentValidation this w2
      else w)"

definition getStyleForCustomStyle :: "inst \<Rightarrow> ref \<Rightarrow> world \<Rightarrow> ref option \<times> world" where
  "getStyleForCustomStyle this customStyle w =
     (case getStyle (heap w customStyle) of
        Some r \<Rightarrow> (r, emit (GetStyleCall customStyle) w)
      | None \<Rightarrow> (Some customStyle, w))"

text \<open>
  The inner loop of \<open>findStyles\<close>: \<open>style.attributes\<close> is read again at every turn, as
  the source does, so the loop is also right when \<open>appliedStyle\<close> is \<open>style\<close> itself.
\<close>

function copyAttributes :: "ref \<Rightarrow> ref \<Rightarrow> ref \<Rightarrow> nat \<Rightarrow> world \<Rightarrow> world" where
  "copyAttributes customStyle style appliedStyle i w =
     (if i < length (attributes (heap w style)) then
        let attr = attributes (heap w style) ! i
        in copyAttributes customStyle style appliedStyle (Suc i)
             (setAttribute customStyle appliedStyle (fst attr) (snd attr) w)
      else w)"
  by pat_completeness auto

termination
proof (relation "measure (\<lambda>(c, s, a, i, w). length (attributes (heap w s)) - i)", goal_cases)
  case 1
  show ?case by simp
next
  case (2 customStyle style appliedStyle i w x)
  have len: "length (AList.update k v al) = length al" if "k \<in> fst ` set al"
    for k v :: string and al
    using that by (induction al) auto
  have "fst (attributes (heap w style) ! i) \<in> fst ` set (attributes (heap w style))"
    using 2(1) by (metis imageI nth_mem)
  then have "length (attributes (heap (setAttribute customStyle appliedStyle
      (fst (attributes (heap w style) ! i)) (snd (attributes (heap w style) ! i)) w) style))
      = length (attributes (heap w style))"
    by (cases "style = appliedStyle") (auto simp: setAttribute_def emit_def len)
  with 2 show ?case by simp
qed

declare copyAttributes.simps [simp del]

text \<open>The body of the outer loop of \<open>findStyles\<close>, for the entry at index \<open>i\<close>.\<close>

definition findStylesBody :: "inst \<Rightarrow> nat \<Rightarrow> world \<Rightarrow> world" where
  "findStylesBody this i w =
     (let customStyle = customStyles (registries w this) ! i in
      if processedByShadyCSS (heap w customStyle) then w
      else
        (case getStyleForCustomStyle this customStyle w of
           (None, w1) \<Rightarrow> w1
         | (Some style, w1) \<Rightarrow>
             (let w2 = w1\<lparr> heap := (heap w1)(customStyle := (heap w1 customStyle)
                           \<lparr> processedByShadyCSS := True \<rparr>) \<rparr>;
                  appliedStyle = appliedElement (heap w2 style);
                  w3 = (case appliedStyle of
                          Some a \<Rightarrow> copyAttributes customStyle style a 0 w2
                        | None \<Rightarrow> w2)
              in (case transformFn w3 of
                    Some f \<Rightarrow>
                      emit (TransformCall customStyle f
                              (case appliedStyle of Some a \<Rightarrow> a | None \<Rightarrow> style)) w3
                  | None \<Rightarrow> w3))))"

text \<open>
  The outer loop: \<open>cs\<close> is the instance's own array, so its length is read from the
  instance at every turn.
\<close>

function findStylesLoop :: "inst \<Rightarrow> nat \<Rightarrow> world \<Rightarrow> world" where
  "findStylesLoop this i w =
     (if i < length (customStyles (registries w this)) then
        findStylesLoop this (Suc i) (findStylesBody this i w)
      else w)"
  by pat_completeness auto

termination
proof (relation "measure (\<lambda>(this, i, w). length (customStyles (registries w this)) - i)",
    goal_cases)
  case 1
  show ?case by simp
next
  case (2 this i w)
  have cp: "registries (copyAttributes c s a j v) = registries v" for c s a j v
  proof (induction c s a j v rule: copyAttributes.induct)
    case (1 c s a j v)
    show ?case
    proof (cases "j < length (attributes (heap v s))")
      case True
      with 1 show ?thesis
        by (subst copyAttributes.simps) (simp add: Let_def setAttribute_def emit_def)
    next
      case False
      then show ?thesis by (subst copyAttributes.simps) simp
    qed
  qed
  have "registries (findStylesBody this i w) = registries w"
    by (simp add: findStylesBody_def getStyleForCustomStyle_def emit_def cp Let_def
        split: option.splits)
  with 2 show ?case by simp
qed

declare findStylesLoop.simps [simp del]

definition findStyles :: "inst \<Rightarrow> world \<Rightarrow> world" where
  "findStyles this w = findStylesLoop this 0 w"


definition set_transformCallback :: "inst \<Rightarrow> fn option \<Rightarrow> world \<Rightarrow> world" where
  "set_transformCallback this f w = w\<lparr> transformFn := f \<rparr>"


definition set_validateCallback :: "inst \<Rightarrow> fn option \<Rightarrow> world \<Rightarrow> world" where
  "set_validateCallback this f w = w\<lparr> validateFn := f \<rparr>"

section \<open>Runs\<close>

text \<open>
  One step of a page's life: a call of the module's interface, or the environment moving
  (the import scheduler firing, the document changing state, a promise job running, host
  code changing an object).
\<close>

datatype op =
    New inst
  | EnqueueDocumentValidation inst
  | AddCustomStyle inst ref
  | GetStyleForCustomStyle inst ref
  | FindStyles inst
  | SetTransformCallback inst "fn option"
  | SetValidateCallback inst "fn option"
  | ImportsReady
  | ReadyStateChange ready_state
  | RunMicrotask
  | HostUpdate ref "ref option option" "ref option" "(string \<times> string) list"

fun step :: "op \<Rightarrow> world \<Rightarrow> world" where
  "step (New this) w = constructor this w"
| "step (EnqueueDocumentValidation this) w = enqueueDocumentValidation this w"
| "step (AddCustomStyle this style) w = addCustomStyle this style w"
| "step (GetStyleForCustomStyle this customStyle) w =
     snd (getStyleForCustomStyle this customStyle w)"
| "step (FindStyles this) w = findStyles this w"
| "step (SetTransformCallback this f) w = set_transformCallback this f w"
| "step (SetValidateCallback this f) w = set_validateCallback this f w"
| "step ImportsReady w = importsReady w"
| "step (ReadyStateChange st) w = readyStateChange st w"
| "step RunMicrotask w = runMicrotask w"
| "step (HostUpdate r g a attrs) w = hostUpdate r g a attrs w"

fun run :: "op list \<Rightarrow> world \<Rightarrow> world" where
  "run [] w = w"
| "run (x # xs) w = run xs (step x w)"

section \<open>Reading the trace and the state\<close>

text \<open>
  What the claims count: the scheduling calls an instance has made (\<open>scheduledBy\<close>), the
  invocations of a validator (\<open>validateCalls\<close>), the validators handed over and not yet
  invoked (\<open>pendingJobs\<close>; \<open>jobs\<close> adds the invocations made), the transform calls made
  for a provider (\<open>transformsOf\<close>), and the entry of the sequence a call inside
  \<open>findStyles\<close> was made for (\<open>eventStyle\<close>). \<open>copyAll src dst\<close> is \<open>dst\<close> after
  \<open>setAttribute\<close> for every pair of \<open>src\<close> in turn.
\<close>

fun isScheduling :: "inst \<Rightarrow> event \<Rightarrow> bool" where
  "isScheduling this (WhenReadyCall i f) = (i = this)"
| "isScheduling this (ThenCall i f) = (i = this)"
| "isScheduling this e = False"

definition scheduledBy :: "inst \<Rightarrow> event list \<Rightarrow> nat" where
  "scheduledBy this tr = length (filter (isScheduling this) tr)"

fun isValidate :: "event \<Rightarrow> bool" where
  "isValidate (ValidateCall f) = True"
| "isValidate e = False"

definition validateCalls :: "event list \<Rightarrow> nat" where
  "validateCalls tr = length (filter isValidate tr)"

definition pendingJobs :: "world \<Rightarrow> nat" where
  "pendingJobs w =
     length (importsQueue w)
     + (case readyPromise w of None \<Rightarrow> 0 | Some pr \<Rightarrow> length (reactions pr))
     + length (microtasks w)"

definition jobs :: "world \<Rightarrow> nat" where
  "jobs w = validateCalls (trace w) + pendingJobs w"

fun isTransformOf :: "ref \<Rightarrow> event \<Rightarrow> bool" where
  "isTransformOf p (TransformCall c f x) = (c = p)"
| "isTransformOf p e = False"

definition transformsOf :: "ref \<Rightarrow> event list \<Rightarrow> event list" where
  "transformsOf p tr = filter (isTransformOf p) tr"

fun eventStyle :: "event \<Rightarrow> ref option" where
  "eventStyle (GetStyleCall c) = Some c"
| "eventStyle (SetAttributeCall c a n v) = Some c"
| "eventStyle (TransformCall c f x) = Some c"
| "eventStyle e = None"

text \<open>
  Two calls are in sequence order when the entries they were made for are: whatever
  positions of \<open>cs\<close> hold their providers, the position of the first is not behind the
  position of the second.
\<close>

definition styleOrder :: "ref list \<Rightarrow> event \<Rightarrow> event \<Rightarrow> bool" where
  "styleOrder cs e1 e2 =
     (\<forall>i<length cs. \<forall>j<length cs.
        eventStyle e1 = Some (cs ! i) \<longrightarrow> eventStyle e2 = Some (cs ! j) \<longrightarrow> i \<le> j)"

definition copyAll ::
  "(string \<times> string) list \<Rightarrow> (string \<times> string) list \<Rightarrow> (string \<times> string) list" where
  "copyAll src dst = fold (\<lambda>kv. AList.update (fst kv) (snd kv)) src dst"

text \<open>
  \<open>within this x\<close>: the step is a method or property call on the instance \<open>this\<close> (no
  constructor call), or a move of the environment. \<open>reachesEnqueue this w x\<close>: in state \<open>w\<close> the call \<open>x\<close>
  runs \<open>enqueueDocumentValidation\<close> on \<open>this\<close>, directly or from \<open>addCustomStyle\<close> of a
  style not yet seen.
\<close>

fun within :: "inst \<Rightarrow> op \<Rightarrow> bool" where
  "within this (New i) = False"
| "within this (EnqueueDocumentValidation i) = (i = this)"
| "within this (AddCustomStyle i s) = (i = this)"
| "within this (GetStyleForCustomStyle i c) = (i = this)"
| "within this (FindStyles i) = (i = this)"
| "within this (SetTransformCallback i f) = (i = this)"
| "within this (SetValidateCallback i f) = (i = this)"
| "within this x = True"

fun reachesEnqueue :: "inst \<Rightarrow> world \<Rightarrow> op \<Rightarrow> bool" where
  "reachesEnqueue this w (EnqueueDocumentValidation i) = (i = this)"
| "reachesEnqueue this w (AddCustomStyle i s) = (i = this \<and> \<not> seenByShadyCSS (heap w s))"
| "reachesEnqueue this w x = False"

section \<open>Example pages\<close>

text \<open>
  A style element as the parser leaves it, and a page that has loaded the module without
  the import scheduler, built one instance and configured a validator.
\<close>

definition newStyle :: obj where
  "newStyle = \<lparr> seenByShadyCSS = False, processedByShadyCSS = False, getStyle = None,
                appliedElement = None, attributes = [] \<rparr>"

definition page :: world where
  "page = set_validateCallback 0 (Some 7)
            (constructor 0 (loadModule (\<lambda>_. newStyle) False Loading))"

text \<open>The same page with a transform callback configured as well.\<close>

definition styledPage :: world where
  "styledPage = set_transformCallback 0 (Some 9) page"

section \<open>Basic facts\<close>

lemma update_keeps_tail:
  "i < length al \<Longrightarrow> drop (Suc i) (AList.update (fst (al ! i)) v al) = drop (Suc i) al"
proof (induction al arbitrary: i)
  case Nil
  then show ?case by simp
next
  case (Cons p ps)
  show ?case
  proof (cases i)
    case 0
    then show ?thesis by (cases p) simp
  next
    case (Suc j)
    with Cons show ?thesis by (cases p) auto
  qed
qed

lemma copyAttributes_eq:
  "copyAttributes c s a i w =
     w\<lparr> heap := (heap w)(a := (heap w a)
            \<lparr> attributes := copyAll (drop i (attributes (heap w s))) (attributes (heap w a)) \<rparr>),
        trace := trace w @ map (\<lambda>kv. SetAttributeCall c a (fst kv) (snd kv))
                    (drop i (attributes (heap w s))) \<rparr>"
proof (induction c s a i w rule: copyAttributes.induct)
  case (1 c s a i w)
  show ?case
  proof (cases "i < length (attributes (heap w s))")
    case False
    then show ?thesis
      by (subst copyAttributes.simps) (simp add: copyAll_def)
  next
    case True
    let ?al = "attributes (heap w s)"
    let ?w1 = "setAttribute c a (fst (?al ! i)) (snd (?al ! i)) w"
    have tail: "drop (Suc i) (attributes (heap ?w1 s)) = drop (Suc i) ?al"
      using True by (cases "s = a") (auto simp: setAttribute_def emit_def update_keeps_tail)
    have dr: "drop i ?al = ?al ! i # drop (Suc i) ?al"
      using True by (simp add: Cons_nth_drop_Suc)
    have "copyAttributes c s a i w = copyAttributes c s a (Suc i) ?w1"
      using True by (subst copyAttributes.simps) (simp add: Let_def)
    also have "\<dots> = ?w1\<lparr> heap := (heap ?w1)(a := (heap ?w1 a)
            \<lparr> attributes := copyAll (drop (Suc i) (attributes (heap ?w1 s))) (attributes (heap ?w1 a)) \<rparr>),
        trace := trace ?w1 @ map (\<lambda>kv. SetAttributeCall c a (fst kv) (snd kv))
                    (drop (Suc i) (attributes (heap ?w1 s))) \<rparr>"
      by (rule 1[OF True refl])
    also have "\<dots> = w\<lparr> heap := (heap w)(a := (heap w a)
            \<lparr> attributes := copyAll (drop i ?al) (attributes (heap w a)) \<rparr>),
        trace := trace w @ map (\<lambda>kv. SetAttributeCall c a (fst kv) (snd kv)) (drop i ?al) \<rparr>"
      unfolding tail by (simp add: dr setAttribute_def emit_def copyAll_def)
    finally show ?thesis .
  qed
qed

lemmas env_defs = emit_def callWhenReady_def importsReady_def resolveFn_def promiseThen_def
  runMicrotask_def readyStateChange_def setAttribute_def hostUpdate_def

lemmas api_defs = constructor_def enqueueDocumentValidation_def addCustomStyle_def
  getStyleForCustomStyle_def set_transformCallback_def set_validateCallback_def

lemmas body_defs = findStylesBody_def getStyleForCustomStyle_def emit_def copyAttributes_eq Let_def

lemma findStylesBody_fields:
  "registries (findStylesBody this i w) = registries w"
  "readyPromise (findStylesBody this i w) = readyPromise w"
  "whenReady (findStylesBody this i w) = whenReady w"
  "transformFn (findStylesBody this i w) = transformFn w"
  "validateFn (findStylesBody this i w) = validateFn w"
  "readyState (findStylesBody this i w) = readyState w"
  "readyListener (findStylesBody this i w) = readyListener w"
  "importsQueue (findStylesBody this i w) = importsQueue w"
  "microtasks (findStylesBody this i w) = microtasks w"
  by (simp_all add: body_defs split: option.splits)

lemma findStylesBody_heap:
  "seenByShadyCSS (heap (findStylesBody this i w) r) = seenByShadyCSS (heap w r)"
  "getStyle (heap (findStylesBody this i w) r) = getStyle (heap w r)"
  "appliedElement (heap (findStylesBody this i w) r) = appliedElement (heap w r)"
  by (simp_all add: body_defs split: option.splits)

lemma findStylesBody_processed:
  "processedByShadyCSS (heap (findStylesBody this i w) r) =
     (processedByShadyCSS (heap w r) \<or>
      (r = customStyles (registries w this) ! i \<and> getStyle (heap w r) \<noteq> Some None))"
  by (auto simp add: body_defs split: option.splits)

lemma findStylesLoop_inv:
  assumes "\<And>j v. P v \<Longrightarrow> P (findStylesBody this j v)" and "P w"
  shows "P (findStylesLoop this i w)"
  using assms
proof (induction this i w rule: findStylesLoop.induct)
  case (1 this i w)
  show ?case
  proof (cases "i < length (customStyles (registries w this))")
    case True
    then have "findStylesLoop this i w = findStylesLoop this (Suc i) (findStylesBody this i w)"
      by (subst findStylesLoop.simps) simp
    moreover have "P (findStylesLoop this (Suc i) (findStylesBody this i w))"
      using "1.IH"[OF True] "1.prems" by blast
    ultimately show ?thesis by simp
  next
    case False
    then have "findStylesLoop this i w = w" by (subst findStylesLoop.simps) simp
    with 1 show ?thesis by simp
  qed
qed

lemma findStylesLoop_fields:
  "registries (findStylesLoop this i w) = registries w"
  "readyPromise (findStylesLoop this i w) = readyPromise w"
  "whenReady (findStylesLoop this i w) = whenReady w"
  "transformFn (findStylesLoop this i w) = transformFn w"
  "validateFn (findStylesLoop this i w) = validateFn w"
  "readyState (findStylesLoop this i w) = readyState w"
  "readyListener (findStylesLoop this i w) = readyListener w"
  "importsQueue (findStylesLoop this i w) = importsQueue w"
  "microtasks (findStylesLoop this i w) = microtasks w"
  by (rule findStylesLoop_inv; simp add: findStylesBody_fields)+

lemma findStylesLoop_heap:
  "seenByShadyCSS (heap (findStylesLoop this i w) r) = seenByShadyCSS (heap w r)"
  "getStyle (heap (findStylesLoop this i w) r) = getStyle (heap w r)"
  "appliedElement (heap (findStylesLoop this i w) r) = appliedElement (heap w r)"
  by (rule findStylesLoop_inv; simp add: findStylesBody_heap)+

lemma findStylesLoop_processed_mono:
  "processedByShadyCSS (heap w r) \<Longrightarrow> processedByShadyCSS (heap (findStylesLoop this i w) r)"
  by (rule findStylesLoop_inv) (simp_all add: findStylesBody_processed)

lemma findStylesLoop_fold:
  "findStylesLoop this i w =
     fold (findStylesBody this) [i..<length (customStyles (registries w this))] w"
proof (induction this i w rule: findStylesLoop.induct)
  case (1 this i w)
  show ?case
  proof (cases "i < length (customStyles (registries w this))")
    case True
    then have "findStylesLoop this i w = findStylesLoop this (Suc i) (findStylesBody this i w)"
      by (subst findStylesLoop.simps) simp
    also have "\<dots> = fold (findStylesBody this)
        [Suc i..<length (customStyles (registries w this))] (findStylesBody this i w)"
      using "1.IH"[OF True] by (simp add: findStylesBody_fields)
    finally show ?thesis using True by (simp add: upt_conv_Cons)
  next
    case False
    then show ?thesis by (subst findStylesLoop.simps) simp
  qed
qed

lemma findStylesBody_trace:
  "\<exists>es. trace (findStylesBody this i w) = trace w @ es \<and>
        (\<forall>e\<in>set es. eventStyle e = Some (customStyles (registries w this) ! i))"
  by (auto simp add: body_defs split: option.splits)

lemma findStylesBody_filter:
  assumes "\<And>e. P e \<Longrightarrow> eventStyle e \<noteq> Some (customStyles (registries w this) ! i)"
  shows "filter P (trace (findStylesBody this i w)) = filter P (trace w)"
proof -
  obtain es where es: "trace (findStylesBody this i w) = trace w @ es"
    "\<forall>e\<in>set es. eventStyle e = Some (customStyles (registries w this) ! i)"
    using findStylesBody_trace by blast
  have "filter P es = []" using es(2) assms by (auto simp: filter_empty_conv)
  with es(1) show ?thesis by simp
qed

lemma findStylesBody_skip:
  "processedByShadyCSS (heap w (customStyles (registries w this) ! i)) \<Longrightarrow>
   findStylesBody this i w = w"
  by (simp add: findStylesBody_def)

lemma findStylesLoop_filter:
  assumes "\<And>e. P e \<Longrightarrow> eventStyle e = None"
  shows "filter P (trace (findStylesLoop this i w)) = filter P (trace w)"
proof (rule findStylesLoop_inv)
  fix j and v :: world
  assume "filter P (trace v) = filter P (trace w)"
  moreover have "filter P (trace (findStylesBody this j v)) = filter P (trace v)"
    using assms by (intro findStylesBody_filter) auto
  ultimately show "filter P (trace (findStylesBody this j v)) = filter P (trace w)" by simp
qed simp

lemma findStylesLoop_skip:
  assumes "processedByShadyCSS (heap w p)"
  shows "filter (\<lambda>e. eventStyle e = Some p) (trace (findStylesLoop this i w))
         = filter (\<lambda>e. eventStyle e = Some p) (trace w)"
proof -
  let ?P = "\<lambda>v::world. processedByShadyCSS (heap v p) \<and>
     filter (\<lambda>e. eventStyle e = Some p) (trace v) = filter (\<lambda>e. eventStyle e = Some p) (trace w)"
  have "?P (findStylesLoop this i w)"
  proof (rule findStylesLoop_inv)
    fix j and v :: world
    assume v: "?P v"
    show "?P (findStylesBody this j v)"
    proof (cases "customStyles (registries v this) ! j = p")
      case True
      with v show ?thesis by (simp add: findStylesBody_skip)
    next
      case False
      then have "filter (\<lambda>e. eventStyle e = Some p) (trace (findStylesBody this j v))
          = filter (\<lambda>e. eventStyle e = Some p) (trace v)"
        by (intro findStylesBody_filter) auto
      with v show ?thesis by (simp add: findStylesBody_processed)
    qed
  qed (simp add: assms)
  then show ?thesis by simp
qed

lemma isScheduling_style: "isScheduling this e \<Longrightarrow> eventStyle e = None"
  by (cases e) auto

lemma isValidate_style: "isValidate e \<Longrightarrow> eventStyle e = None"
  by (cases e) auto

lemma findStyles_scheduledBy:
  "scheduledBy this' (trace (findStyles this w)) = scheduledBy this' (trace w)"
  unfolding scheduledBy_def findStyles_def
  by (simp add: findStylesLoop_filter isScheduling_style)

lemma findStyles_validateCalls:
  "validateCalls (trace (findStyles this w)) = validateCalls (trace w)"
  unfolding validateCalls_def findStyles_def
  by (simp add: findStylesLoop_filter isValidate_style)

lemma findStyles_pendingJobs: "pendingJobs (findStyles this w) = pendingJobs w"
  by (simp add: pendingJobs_def findStyles_def findStylesLoop_fields)

text \<open>Markers are only ever set.\<close>

lemma step_seen_mono:
  "seenByShadyCSS (heap w r) \<Longrightarrow> seenByShadyCSS (heap (step x w) r)"
  by (cases x)
    (auto simp: api_defs env_defs findStyles_def findStylesLoop_heap Let_def
      split: option.splits list.splits)

lemma step_processed_mono:
  "processedByShadyCSS (heap w r) \<Longrightarrow> processedByShadyCSS (heap (step x w) r)"
  by (cases x)
    (auto simp: api_defs env_defs findStyles_def findStylesLoop_processed_mono Let_def
      split: option.splits list.splits)

lemma run_seen_mono:
  "seenByShadyCSS (heap w r) \<Longrightarrow> seenByShadyCSS (heap (run xs w) r)"
  by (induction xs arbitrary: w) (simp_all add: step_seen_mono)

lemma run_processed_mono:
  "processedByShadyCSS (heap w r) \<Longrightarrow> processedByShadyCSS (heap (run xs w) r)"
  by (induction xs arbitrary: w) (simp_all add: step_processed_mono)

lemmas count_defs = scheduledBy_def validateCalls_def pendingJobs_def jobs_def

lemma enqueue_noop:
  "enqueued (registries w this) \<or> validateFn w = None \<Longrightarrow> enqueueDocumentValidation this w = w"
  by (auto simp: enqueueDocumentValidation_def)

lemma enqueue_first:
  assumes "\<not> enqueued (registries w this)" and "validateFn w = Some f"
  shows "enqueued (registries (enqueueDocumentValidation this w) this)"
    and "trace (enqueueDocumentValidation this w) =
           trace w @ [if whenReady w then WhenReadyCall this f else ThenCall this f]"
    and "pendingJobs (enqueueDocumentValidation this w) = Suc (pendingJobs w)"
  using assms
  by (auto simp: enqueueDocumentValidation_def env_defs Let_def pendingJobs_def
      split: option.splits)

lemma enqueue_frame:
  "heap (enqueueDocumentValidation this w) = heap w"
  "transformFn (enqueueDocumentValidation this w) = transformFn w"
  "validateFn (enqueueDocumentValidation this w) = validateFn w"
  "whenReady (enqueueDocumentValidation this w) = whenReady w"
  "customStyles (registries (enqueueDocumentValidation this w) i) = customStyles (registries w i)"
  "enqueued (registries w i) \<Longrightarrow> enqueued (registries (enqueueDocumentValidation this w) i)"
  "i \<noteq> this \<Longrightarrow> registries (enqueueDocumentValidation this w) i = registries w i"
  by (auto simp: enqueueDocumentValidation_def env_defs Let_def split: option.splits)

lemma enqueue_scheduledBy_other:
  "i \<noteq> this \<or> enqueued (registries w this) \<Longrightarrow>
   scheduledBy i (trace (enqueueDocumentValidation this w)) = scheduledBy i (trace w)"
  by (auto simp: enqueueDocumentValidation_def env_defs Let_def scheduledBy_def
      split: option.splits)

lemma enqueue_scheduledBy_le:
  "scheduledBy i (trace (enqueueDocumentValidation this w))
     \<le> scheduledBy i (trace w) + (if enqueued (registries w i) then 0 else 1)"
  by (auto simp: enqueueDocumentValidation_def env_defs Let_def scheduledBy_def
      split: option.splits)

lemma enqueue_scheduledBy_flag:
  "scheduledBy i (trace (enqueueDocumentValidation this w)) \<noteq> scheduledBy i (trace w) \<Longrightarrow>
   enqueued (registries (enqueueDocumentValidation this w) i)"
  by (auto simp: enqueueDocumentValidation_def env_defs Let_def scheduledBy_def
      split: option.splits if_splits)

lemma enqueue_conservation:
  "jobs (enqueueDocumentValidation this w) + scheduledBy this (trace w)
   = jobs w + scheduledBy this (trace (enqueueDocumentValidation this w))"
  by (auto simp: enqueueDocumentValidation_def env_defs Let_def count_defs
      split: option.splits)

lemmas add_defs = addCustomStyle_def enqueueDocumentValidation_def env_defs Let_def

lemma add_frame:
  "enqueued (registries w i) \<Longrightarrow> enqueued (registries (addCustomStyle this s w) i)"
  "transformFn (addCustomStyle this s w) = transformFn w"
  "validateFn (addCustomStyle this s w) = validateFn w"
  "whenReady (addCustomStyle this s w) = whenReady w"
  "i \<noteq> this \<Longrightarrow> customStyles (registries (addCustomStyle this s w) i) = customStyles (registries w i)"
  by (auto simp: add_defs split: option.splits)

lemma add_scheduledBy_other:
  "i \<noteq> this \<or> enqueued (registries w this) \<Longrightarrow>
   scheduledBy i (trace (addCustomStyle this s w)) = scheduledBy i (trace w)"
  by (auto simp: add_defs scheduledBy_def split: option.splits)

lemma add_scheduledBy_le:
  "scheduledBy i (trace (addCustomStyle this s w))
     \<le> scheduledBy i (trace w) + (if enqueued (registries w i) then 0 else 1)"
  by (auto simp: add_defs scheduledBy_def split: option.splits)

lemma add_scheduledBy_flag:
  "scheduledBy i (trace (addCustomStyle this s w)) \<noteq> scheduledBy i (trace w) \<Longrightarrow>
   enqueued (registries (addCustomStyle this s w) i)"
  by (auto simp: add_defs scheduledBy_def split: option.splits if_splits)

lemma add_conservation:
  "jobs (addCustomStyle this s w) + scheduledBy this (trace w)
   = jobs w + scheduledBy this (trace (addCustomStyle this s w))"
  by (auto simp: add_defs count_defs split: option.splits)

lemmas small_defs = constructor_def getStyleForCustomStyle_def
  set_transformCallback_def set_validateCallback_def env_defs Let_def

lemma step_enqueued_mono:
  "x \<noteq> New this \<Longrightarrow> enqueued (registries w this) \<Longrightarrow> enqueued (registries (step x w) this)"
  by (cases x)
    (auto simp: add_frame enqueue_frame small_defs findStyles_def findStylesLoop_fields
      split: option.splits list.splits)

lemma step_scheduledBy_enqueued:
  assumes "enqueued (registries w this)"
  shows "scheduledBy this (trace (step x w)) = scheduledBy this (trace w)"
proof (cases x)
  case (EnqueueDocumentValidation j)
  then show ?thesis using assms enqueue_scheduledBy_other[of this j w] by auto
next
  case (AddCustomStyle j s)
  then show ?thesis using assms add_scheduledBy_other[of this j w s] by auto
next
  case (FindStyles j)
  then show ?thesis by (simp add: findStyles_scheduledBy)
qed (auto simp: small_defs scheduledBy_def split: option.splits list.splits)

lemma step_scheduledBy_le:
  "scheduledBy i (trace (step x w))
     \<le> scheduledBy i (trace w) + (if enqueued (registries w i) then 0 else 1)"
proof (cases x)
  case (EnqueueDocumentValidation j)
  then show ?thesis using enqueue_scheduledBy_le[of i j w] by simp
next
  case (AddCustomStyle j s)
  then show ?thesis using add_scheduledBy_le[of i j s w] by simp
next
  case (FindStyles j)
  then show ?thesis by (simp add: findStyles_scheduledBy)
qed (auto simp: small_defs scheduledBy_def split: option.splits list.splits)

lemma step_scheduledBy_flag:
  assumes "scheduledBy i (trace (step x w)) \<noteq> scheduledBy i (trace w)"
  shows "enqueued (registries (step x w) i)"
proof (cases x)
  case (EnqueueDocumentValidation j)
  then show ?thesis using assms enqueue_scheduledBy_flag[of i j w] by simp
next
  case (AddCustomStyle j s)
  then show ?thesis using assms add_scheduledBy_flag[of i j s w] by simp
next
  case (FindStyles j)
  with assms show ?thesis by (simp add: findStyles_scheduledBy)
qed (use assms in \<open>auto simp: small_defs scheduledBy_def
      split: option.splits list.splits if_splits\<close>)

lemma step_conservation:
  assumes "within this x"
  shows "jobs (step x w) + scheduledBy this (trace w)
         = jobs w + scheduledBy this (trace (step x w))"
proof (cases x)
  case (EnqueueDocumentValidation j)
  with assms show ?thesis using enqueue_conservation[of this w] by simp
next
  case (AddCustomStyle j s)
  with assms show ?thesis using add_conservation[of this s w] by simp
next
  case (FindStyles j)
  then show ?thesis
    by (simp add: jobs_def findStyles_scheduledBy findStyles_validateCalls findStyles_pendingJobs)
qed (use assms in \<open>auto simp: small_defs count_defs
      split: option.splits list.splits if_splits\<close>)

lemma within_not_New: "within this x \<Longrightarrow> x \<noteq> New this"
  by (cases x) auto

lemma run_enqueued_mono:
  "New this \<notin> set xs \<Longrightarrow> enqueued (registries w this) \<Longrightarrow>
   enqueued (registries (run xs w) this)"
  by (induction xs arbitrary: w) (auto simp: step_enqueued_mono)

lemma run_scheduledBy_enqueued:
  "New this \<notin> set xs \<Longrightarrow> enqueued (registries w this) \<Longrightarrow>
   scheduledBy this (trace (run xs w)) = scheduledBy this (trace w)"
proof (induction xs arbitrary: w)
  case Nil
  then show ?case by simp
next
  case (Cons x xs)
  then have "enqueued (registries (step x w) this)" by (auto simp: step_enqueued_mono)
  with Cons show ?case by (simp add: step_scheduledBy_enqueued)
qed

lemma run_scheduledBy_le:
  "New this \<notin> set xs \<Longrightarrow>
   scheduledBy this (trace (run xs w))
     \<le> scheduledBy this (trace w) + (if enqueued (registries w this) then 0 else 1)"
proof (induction xs arbitrary: w)
  case Nil
  then show ?case by simp
next
  case (Cons x xs)
  have le: "scheduledBy this (trace (step x w))
      \<le> scheduledBy this (trace w) + (if enqueued (registries w this) then 0 else 1)"
    by (rule step_scheduledBy_le)
  show ?case
  proof (cases "enqueued (registries (step x w) this)")
    case True
    with Cons.prems have "scheduledBy this (trace (run xs (step x w)))
        = scheduledBy this (trace (step x w))"
      by (simp add: run_scheduledBy_enqueued)
    with le show ?thesis by simp
  next
    case False
    then have same: "scheduledBy this (trace (step x w)) = scheduledBy this (trace w)"
      using step_scheduledBy_flag by blast
    from False Cons.prems have "\<not> enqueued (registries w this)"
      using step_enqueued_mono by auto
    moreover have "scheduledBy this (trace (run xs (step x w)))
        \<le> scheduledBy this (trace (step x w)) + (if enqueued (registries (step x w) this) then 0 else 1)"
      using Cons.IH Cons.prems by simp
    ultimately show ?thesis using same False by simp
  qed
qed

lemma run_conservation:
  "list_all (within this) xs \<Longrightarrow>
   jobs (run xs w) + scheduledBy this (trace w) = jobs w + scheduledBy this (trace (run xs w))"
proof (induction xs arbitrary: w)
  case Nil
  then show ?case by simp
next
  case (Cons x xs)
  then have "jobs (step x w) + scheduledBy this (trace w)
      = jobs w + scheduledBy this (trace (step x w))"
    by (simp add: step_conservation)
  moreover have "jobs (run xs (step x w)) + scheduledBy this (trace (step x w))
      = jobs (step x w) + scheduledBy this (trace (run xs (step x w)))"
    using Cons by simp
  ultimately show ?case by simp
qed

lemma reachesEnqueue_first:
  assumes "reachesEnqueue this w x" and "\<not> enqueued (registries w this)"
    and "validateFn w = Some f"
  shows "enqueued (registries (step x w) this)"
    and "trace (step x w) = trace w @ [if whenReady w then WhenReadyCall this f else ThenCall this f]"
    and "pendingJobs (step x w) = Suc (pendingJobs w)"
proof -
  have "enqueued (registries (step x w) this) \<and>
    trace (step x w) = trace w @ [if whenReady w then WhenReadyCall this f else ThenCall this f] \<and>
    pendingJobs (step x w) = Suc (pendingJobs w)"
  proof (cases x)
    case (EnqueueDocumentValidation i)
    with assms show ?thesis by (simp add: enqueue_first)
  next
    case (AddCustomStyle i s)
    with assms show ?thesis
      by (auto simp: add_defs pendingJobs_def split: option.splits)
  qed (use assms in auto)
  then show "enqueued (registries (step x w) this)"
    and "trace (step x w) = trace w @ [if whenReady w then WhenReadyCall this f else ThenCall this f]"
    and "pendingJobs (step x w) = Suc (pendingJobs w)"
    by simp_all
qed

lemmas eval_defs = page_def newStyle_def loadModule_def api_defs env_defs count_defs Let_def

lemma add_customStyles:
  "customStyles (registries (addCustomStyle i s w) j)
     = customStyles (registries w j) @ (if j = i \<and> \<not> seenByShadyCSS (heap w s) then [s] else [])"
  by (auto simp: add_defs split: option.splits)

lemma add_seen:
  "seenByShadyCSS (heap (addCustomStyle i s w) r) = (r = s \<or> seenByShadyCSS (heap w r))"
  by (auto simp: add_defs split: option.splits)

lemma add_noop: "seenByShadyCSS (heap w s) \<Longrightarrow> addCustomStyle i s w = w"
  by (simp add: addCustomStyle_def)

lemma step_customStyles_cases:
  "customStyles (registries (step x w) i) = customStyles (registries w i)
   \<or> (x = New i \<and> customStyles (registries (step x w) i) = [])
   \<or> (\<exists>s. x = AddCustomStyle i s \<and> \<not> seenByShadyCSS (heap w s)
          \<and> customStyles (registries (step x w) i) = customStyles (registries w i) @ [s])"
proof (cases x)
  case (AddCustomStyle j s)
  then show ?thesis by (auto simp: add_customStyles)
next
  case (EnqueueDocumentValidation j)
  then show ?thesis by (simp add: enqueue_frame)
next
  case (FindStyles j)
  then show ?thesis by (simp add: findStyles_def findStylesLoop_fields)
qed (auto simp: small_defs split: option.splits list.splits)

lemma step_entries_seen:
  assumes "\<forall>i p. p \<in> set (customStyles (registries w i)) \<longrightarrow> seenByShadyCSS (heap w p)"
  shows "\<forall>i p. p \<in> set (customStyles (registries (step x w) i))
           \<longrightarrow> seenByShadyCSS (heap (step x w) p)"
proof (intro allI impI)
  fix i p
  assume p: "p \<in> set (customStyles (registries (step x w) i))"
  from step_customStyles_cases[of x w i]
  consider "p \<in> set (customStyles (registries w i))"
    | s where "x = AddCustomStyle i s" "p = s"
    using p by auto
  then show "seenByShadyCSS (heap (step x w) p)"
  proof cases
    case 1
    with assms show ?thesis by (simp add: step_seen_mono)
  next
    case 2
    then show ?thesis by (simp add: add_seen)
  qed
qed

lemma run_entries_seen_aux:
  "\<forall>i p. p \<in> set (customStyles (registries w i)) \<longrightarrow> seenByShadyCSS (heap w p) \<Longrightarrow>
   \<forall>i p. p \<in> set (customStyles (registries (run xs w) i))
           \<longrightarrow> seenByShadyCSS (heap (run xs w) p)"
proof (induction xs arbitrary: w)
  case Nil
  then show ?case by simp
next
  case (Cons x xs)
  from step_entries_seen[OF Cons.prems] show ?case
    using Cons.IH[of "step x w"] by simp
qed

lemma reachable_entries_seen:
  "p \<in> set (customStyles (registries (run xs (loadModule h imports st)) i)) \<Longrightarrow>
   seenByShadyCSS (heap (run xs (loadModule h imports st)) p)"
  using run_entries_seen_aux[of "loadModule h imports st" xs]
  by (simp add: loadModule_def)

lemma step_count_seen:
  assumes "seenByShadyCSS (heap w p)" and "x \<noteq> New i"
  shows "count_list (customStyles (registries (step x w) i)) p
         = count_list (customStyles (registries w i)) p"
  using step_customStyles_cases[of x w i] assms by auto

lemma run_count_seen:
  "seenByShadyCSS (heap w p) \<Longrightarrow> New i \<notin> set xs \<Longrightarrow>
   count_list (customStyles (registries (run xs w) i)) p
     = count_list (customStyles (registries w i)) p"
proof (induction xs arbitrary: w)
  case Nil
  then show ?case by simp
next
  case (Cons x xs)
  then have "count_list (customStyles (registries (run xs (step x w)) i)) p
      = count_list (customStyles (registries (step x w) i)) p"
    by (simp add: step_seen_mono)
  moreover have "count_list (customStyles (registries (step x w) i)) p
      = count_list (customStyles (registries w i)) p"
    using Cons.prems by (intro step_count_seen) auto
  ultimately show ?case by simp
qed



lemma fold_body_inv:
  assumes "\<And>j v. P v \<Longrightarrow> P (findStylesBody this j v)" and "P w"
  shows "P (fold (findStylesBody this) js w)"
  using assms(2) by (induction js arbitrary: w) (simp_all add: assms(1))

lemma findStyles_fold:
  "findStyles this w = fold (findStylesBody this) [0..<length (customStyles (registries w this))] w"
  by (simp add: findStyles_def findStylesLoop_fold)


lemma findStyles_skip:
  "processedByShadyCSS (heap w p) \<Longrightarrow>
   filter (\<lambda>e. eventStyle e = Some p) (trace (findStyles this w))
     = filter (\<lambda>e. eventStyle e = Some p) (trace w)"
  by (simp add: findStyles_def findStylesLoop_skip)

lemma findStylesBody_transformsOf:
  "transformsOf p (trace (findStylesBody this i w)) = transformsOf p (trace w) @
     (if customStyles (registries w this) ! i = p \<and> \<not> processedByShadyCSS (heap w p) then
        (case fst (getStyleForCustomStyle this p w) of
           None \<Rightarrow> []
         | Some s \<Rightarrow>
             (case transformFn w of
                None \<Rightarrow> []
              | Some f \<Rightarrow> [TransformCall p f
                            (case appliedElement (heap w s) of Some a \<Rightarrow> a | None \<Rightarrow> s)]))
      else [])"
proof (cases "processedByShadyCSS (heap w (customStyles (registries w this) ! i))")
  case True
  then show ?thesis by (auto simp add: findStylesBody_def)
next
  case False
  let ?c = "customStyles (registries w this) ! i"
  show ?thesis
  proof (cases "fst (getStyleForCustomStyle this ?c w)")
    case None
    with False show ?thesis
      by (auto simp add: findStylesBody_def getStyleForCustomStyle_def emit_def transformsOf_def
          split: option.splits)
  next
    case (Some s)
    show ?thesis
    proof (cases "appliedElement (heap w s)")
      case None
      with False Some show ?thesis
        by (cases "transformFn w"; cases "getStyle (heap w ?c)")
          (auto simp add: findStylesBody_def getStyleForCustomStyle_def emit_def transformsOf_def Let_def)
    next
      case (Some a)
      with False \<open>fst (getStyleForCustomStyle this ?c w) = Some s\<close> show ?thesis
        by (cases "transformFn w"; cases "getStyle (heap w ?c)")
          (auto simp add: findStylesBody_def getStyleForCustomStyle_def emit_def transformsOf_def Let_def
            copyAttributes_eq comp_def)
    qed
  qed
qed

lemma findStylesBody_once:
  assumes "length (transformsOf p (trace w)) \<le> 1"
    and "transformsOf p (trace w) \<noteq> [] \<longrightarrow> processedByShadyCSS (heap w p)"
  shows "length (transformsOf p (trace (findStylesBody this i w))) \<le> 1
       \<and> (transformsOf p (trace (findStylesBody this i w)) \<noteq> []
            \<longrightarrow> processedByShadyCSS (heap (findStylesBody this i w) p))"
  using assms
  by (auto simp add: findStylesBody_transformsOf findStylesBody_processed
      getStyleForCustomStyle_def split: option.splits)

lemma step_transformsOf:
  "\<forall>i. x \<noteq> FindStyles i \<Longrightarrow> transformsOf p (trace (step x w)) = transformsOf p (trace w)"
  by (cases x) (auto simp: add_defs small_defs transformsOf_def split: option.splits list.splits)

lemma step_once:
  assumes "length (transformsOf p (trace w)) \<le> 1"
    and "transformsOf p (trace w) \<noteq> [] \<longrightarrow> processedByShadyCSS (heap w p)"
  shows "length (transformsOf p (trace (step x w))) \<le> 1
       \<and> (transformsOf p (trace (step x w)) \<noteq> [] \<longrightarrow> processedByShadyCSS (heap (step x w) p))"
proof (cases "\<exists>i. x = FindStyles i")
  case True
  then obtain i where x: "x = FindStyles i" by blast
  have "length (transformsOf p (trace (findStylesLoop i 0 w))) \<le> 1
       \<and> (transformsOf p (trace (findStylesLoop i 0 w)) \<noteq> []
            \<longrightarrow> processedByShadyCSS (heap (findStylesLoop i 0 w) p))"
    by (rule findStylesLoop_inv) (use assms findStylesBody_once in auto)
  with x show ?thesis by (simp add: findStyles_def)
next
  case False
  then have "transformsOf p (trace (step x w)) = transformsOf p (trace w)"
    by (intro step_transformsOf) auto
  with assms show ?thesis using step_processed_mono by auto
qed

lemma run_once:
  "length (transformsOf p (trace w)) \<le> 1 \<Longrightarrow>
   (transformsOf p (trace w) \<noteq> [] \<longrightarrow> processedByShadyCSS (heap w p)) \<Longrightarrow>
   length (transformsOf p (trace (run xs w))) \<le> 1
   \<and> (transformsOf p (trace (run xs w)) \<noteq> [] \<longrightarrow> processedByShadyCSS (heap (run xs w) p))"
proof (induction xs arbitrary: w)
  case Nil
  then show ?case by simp
next
  case (Cons x xs)
  from step_once[OF Cons.prems, of x] show ?case
    using Cons.IH[of "step x w"] by simp
qed

lemma step_customStyles_prefix:
  "x \<noteq> New i \<Longrightarrow> prefix (customStyles (registries w i)) (customStyles (registries (step x w) i))"
  using step_customStyles_cases[of x w i] by auto

lemma run_customStyles_prefix:
  "New i \<notin> set xs \<Longrightarrow> prefix (customStyles (registries w i)) (customStyles (registries (run xs w) i))"
proof (induction xs arbitrary: w)
  case Nil
  then show ?case by simp
next
  case (Cons x xs)
  then have "prefix (customStyles (registries w i)) (customStyles (registries (step x w) i))"
    by (intro step_customStyles_prefix) auto
  moreover have "prefix (customStyles (registries (step x w) i))
      (customStyles (registries (run xs (step x w)) i))"
    using Cons by simp
  ultimately show ?case by (simp add: prefix_order.order_trans)
qed

lemma findStyles_registries: "registries (findStyles this w) = registries w"
  by (simp add: findStyles_def findStylesLoop_fields)



lemmas find_defs = styledPage_def eval_defs findStyles_fold findStylesBody_def copyAttributes_eq
  copyAll_def transformsOf_def






lemma step_distinct:
  assumes "\<forall>i p. p \<in> set (customStyles (registries w i)) \<longrightarrow> seenByShadyCSS (heap w p)"
    and "\<forall>i. distinct (customStyles (registries w i))"
  shows "\<forall>i. distinct (customStyles (registries (step x w) i))"
proof
  fix i
  from step_customStyles_cases[of x w i] assms
  show "distinct (customStyles (registries (step x w) i))" by auto
qed

lemma run_distinct_aux:
  "\<forall>i p. p \<in> set (customStyles (registries w i)) \<longrightarrow> seenByShadyCSS (heap w p) \<Longrightarrow>
   \<forall>i. distinct (customStyles (registries w i)) \<Longrightarrow>
   \<forall>i. distinct (customStyles (registries (run xs w) i))"
proof (induction xs arbitrary: w)
  case Nil
  then show ?case by simp
next
  case (Cons x xs)
  from step_entries_seen[OF Cons.prems(1)] step_distinct[OF Cons.prems]
  show ?case using Cons.IH[of "step x w"] by simp
qed

lemma reachable_distinct:
  "distinct (customStyles (registries (run xs (loadModule h imports st)) i))"
  using run_distinct_aux[of "loadModule h imports st" xs]
  by (simp add: loadModule_def)

lemma sorted_wrt_all: "(\<And>x y. x \<in> set xs \<Longrightarrow> y \<in> set xs \<Longrightarrow> R x y) \<Longrightarrow> sorted_wrt R xs"
  by (induction xs) auto

lemma fold_body_order:
  assumes "distinct (customStyles (registries w this))"
    and "k \<le> length (customStyles (registries w this))"
  shows "\<exists>es. trace (fold (findStylesBody this) [0..<k] w) = trace w @ es
           \<and> sorted_wrt (styleOrder (customStyles (registries w this))) es
           \<and> (\<forall>e\<in>set es. \<exists>j<k. eventStyle e = Some (customStyles (registries w this) ! j))"
  using assms(2)
proof (induction k)
  case 0
  then show ?case by simp
next
  case (Suc k)
  let ?cs = "customStyles (registries w this)"
  let ?v = "fold (findStylesBody this) [0..<k] w"
  from Suc obtain es where es: "trace ?v = trace w @ es" "sorted_wrt (styleOrder ?cs) es"
    "\<forall>e\<in>set es. \<exists>j<k. eventStyle e = Some (?cs ! j)"
    by auto
  have reg: "registries ?v = registries w"
    by (rule fold_body_inv) (simp_all add: findStylesBody_fields)
  obtain es' where es': "trace (findStylesBody this k ?v) = trace ?v @ es'"
    "\<forall>e\<in>set es'. eventStyle e = Some (?cs ! k)"
    using findStylesBody_trace[of this k ?v] by (auto simp: reg)
  have k: "k < length ?cs" using Suc.prems by simp
  have own: "sorted_wrt (styleOrder ?cs) es'"
  proof (rule sorted_wrt_all)
    fix x y
    assume "x \<in> set es'" "y \<in> set es'"
    with es'(2) have "eventStyle x = Some (?cs ! k)" "eventStyle y = Some (?cs ! k)" by auto
    then show "styleOrder ?cs x y"
      using assms(1) k by (auto simp: styleOrder_def nth_eq_iff_index_eq)
  qed
  have cross: "styleOrder ?cs x y" if "x \<in> set es" "y \<in> set es'" for x y
  proof -
    from that es(3) obtain j where j: "j < k" "eventStyle x = Some (?cs ! j)" by auto
    from that es'(2) have y: "eventStyle y = Some (?cs ! k)" by auto
    show ?thesis
      using assms(1) k j y by (auto simp: styleOrder_def nth_eq_iff_index_eq)
  qed
  have "trace (fold (findStylesBody this) [0..<Suc k] w) = trace w @ (es @ es')"
    by (simp add: es(1) es'(1))
  moreover have "sorted_wrt (styleOrder ?cs) (es @ es')"
    using es(2) own cross by (simp add: sorted_wrt_append)
  moreover have "\<forall>e\<in>set (es @ es'). \<exists>j<Suc k. eventStyle e = Some (?cs ! j)"
    using es(3) es'(2) less_Suc_eq by auto
  ultimately show ?case by blast
qed

lemma findStyles_order:
  assumes "distinct (customStyles (registries w this))"
  shows "\<exists>es. trace (findStyles this w) = trace w @ es
           \<and> sorted_wrt (styleOrder (customStyles (registries w this))) es"
  using fold_body_order[OF assms order_refl] by (auto simp: findStyles_fold)

section \<open>Scheduling the validator\<close>

text \<open>
  Claim C1. With a validate callback configured and the flag of an instance still false,
  the first call that reaches \<open>enqueueDocumentValidation\<close> on that instance (directly or
  through \<open>addCustomStyle\<close> of a style not yet seen) sets \<open>enqueued\<close> and hands the
  validator over exactly once: one scheduling call more in the trace, one pending job
  more, no invocation yet. Whatever the instance and the environment do afterwards
  (\<open>xs\<close>), a further \<open>enqueueDocumentValidation\<close> changes nothing, the instance has
  still scheduled exactly once, and invocations of the validator plus jobs still pending
  have grown by exactly one: the validator runs at most once for this cycle.
\<close>

theorem enqueue_at_most_once:
  assumes "validateFn w = Some f"
    and "\<not> enqueued (registries w this)"
    and "reachesEnqueue this w x"
    and "list_all (within this) xs"
  shows "enqueued (registries (step x w) this)
       \<and> scheduledBy this (trace (step x w)) = scheduledBy this (trace w) + 1
       \<and> pendingJobs (step x w) = pendingJobs w + 1
       \<and> validateCalls (trace (step x w)) = validateCalls (trace w)
       \<and> enqueueDocumentValidation this (run xs (step x w)) = run xs (step x w)
       \<and> scheduledBy this (trace (run xs (step x w))) = scheduledBy this (trace w) + 1
       \<and> validateCalls (trace (run xs (step x w))) + pendingJobs (run xs (step x w))
           = validateCalls (trace w) + pendingJobs w + 1"
proof -
  let ?w1 = "step x w"
  note first = reachesEnqueue_first[OF assms(3,2,1)]
  have sched: "scheduledBy this (trace ?w1) = scheduledBy this (trace w) + 1"
    by (simp add: first(2) scheduledBy_def)
  have val: "validateCalls (trace ?w1) = validateCalls (trace w)"
    by (simp add: first(2) validateCalls_def)
  have noNew: "New this \<notin> set xs"
    using assms(4) within_not_New by (auto simp: list_all_iff)
  have flag: "enqueued (registries (run xs ?w1) this)"
    using noNew first(1) by (rule run_enqueued_mono)
  have same: "scheduledBy this (trace (run xs ?w1)) = scheduledBy this (trace ?w1)"
    using noNew first(1) by (rule run_scheduledBy_enqueued)
  have "jobs (run xs ?w1) + scheduledBy this (trace ?w1)
      = jobs ?w1 + scheduledBy this (trace (run xs ?w1))"
    using assms(4) by (rule run_conservation)
  with same have "jobs (run xs ?w1) = jobs ?w1" by simp
  then have total: "validateCalls (trace (run xs ?w1)) + pendingJobs (run xs ?w1)
      = validateCalls (trace w) + pendingJobs w + 1"
    by (simp add: jobs_def val first(3))
  show ?thesis
    using first(1) sched first(3) val flag same total by (simp add: enqueue_noop)
qed

theorem enqueue_at_most_once_witness:
  "validateFn page = Some 7
   \<and> \<not> enqueued (registries page 0)
   \<and> reachesEnqueue 0 page (AddCustomStyle 0 1)
   \<and> list_all (within 0)
        [EnqueueDocumentValidation 0, AddCustomStyle 0 2, ReadyStateChange Complete,
         RunMicrotask, EnqueueDocumentValidation 0]
   \<and> scheduledBy 0 (trace (run
        [EnqueueDocumentValidation 0, AddCustomStyle 0 2, ReadyStateChange Complete,
         RunMicrotask, EnqueueDocumentValidation 0] (step (AddCustomStyle 0 1) page))) = 1
   \<and> validateCalls (trace (run
        [EnqueueDocumentValidation 0, AddCustomStyle 0 2, ReadyStateChange Complete,
         RunMicrotask, EnqueueDocumentValidation 0] (step (AddCustomStyle 0 1) page))) = 1"
proof -
  let ?xs = "[EnqueueDocumentValidation 0, AddCustomStyle 0 2, ReadyStateChange Complete,
         RunMicrotask, EnqueueDocumentValidation 0]"
  have h1: "validateFn page = Some 7" by (simp add: eval_defs)
  have h2: "\<not> enqueued (registries page 0)" by (simp add: eval_defs)
  have h3: "reachesEnqueue 0 page (AddCustomStyle 0 1)" by (simp add: eval_defs)
  have h4: "list_all (within 0) ?xs" by simp
  have t0: "scheduledBy 0 (trace page) = 0" by (simp add: eval_defs)
  have v: "validateCalls (trace (run ?xs (step (AddCustomStyle 0 1) page))) = 1"
    by (simp add: eval_defs)
  from enqueue_at_most_once[OF h1 h2 h3 h4] t0 v h1 h2 h3 h4 show ?thesis by simp
qed

text \<open>
  Claim C7. Nothing but building the instance anew resets \<open>enqueued\<close>: along any run that
  does not construct \<open>this\<close> again, a flag that is set stays set and the instance makes no
  further scheduling call; so from its construction on an instance schedules the
  validator at most once, whatever is called on it, on other instances or by the
  environment.
\<close>

theorem enqueued_never_reset:
  assumes "New this \<notin> set xs"
  shows "(enqueued (registries w this) \<longrightarrow>
            enqueued (registries (run xs w) this)
          \<and> scheduledBy this (trace (run xs w)) = scheduledBy this (trace w))
       \<and> scheduledBy this (trace (run xs (constructor this w))) \<le> scheduledBy this (trace w) + 1"
proof -
  have "scheduledBy this (trace (run xs (constructor this w)))
      \<le> scheduledBy this (trace (constructor this w))
        + (if enqueued (registries (constructor this w) this) then 0 else 1)"
    using assms by (rule run_scheduledBy_le)
  then have "scheduledBy this (trace (run xs (constructor this w))) \<le> scheduledBy this (trace w) + 1"
    by (simp add: constructor_def)
  then show ?thesis
    using assms by (simp add: run_enqueued_mono run_scheduledBy_enqueued)
qed

theorem enqueued_never_reset_witness:
  "New 0 \<notin> set [AddCustomStyle 0 2, FindStyles 0, ReadyStateChange Complete, RunMicrotask,
                   EnqueueDocumentValidation 0]
   \<and> enqueued (registries (addCustomStyle 0 1 page) 0)
   \<and> enqueued (registries (run [AddCustomStyle 0 2, FindStyles 0, ReadyStateChange Complete,
         RunMicrotask, EnqueueDocumentValidation 0] (addCustomStyle 0 1 page)) 0)
   \<and> scheduledBy 0 (trace (run [AddCustomStyle 0 2, FindStyles 0, ReadyStateChange Complete,
         RunMicrotask, EnqueueDocumentValidation 0] (addCustomStyle 0 1 page))) = 1
   \<and> scheduledBy 0 (trace (run [AddCustomStyle 0 2, FindStyles 0, ReadyStateChange Complete,
         RunMicrotask, EnqueueDocumentValidation 0]
         (constructor 0 (addCustomStyle 0 1 page)))) \<le> 2"
proof -
  let ?xs = "[AddCustomStyle 0 2, FindStyles 0, ReadyStateChange Complete, RunMicrotask,
                   EnqueueDocumentValidation 0]"
  let ?w = "addCustomStyle 0 1 page"
  have h: "New 0 \<notin> set ?xs" by simp
  have e: "enqueued (registries ?w 0)" by (simp add: eval_defs)
  have t: "scheduledBy 0 (trace ?w) = 1" by (simp add: eval_defs)
  from enqueued_never_reset[OF h, of ?w] e t h show ?thesis by simp
qed

section \<open>Registering styles\<close>

text \<open>
  Claim C2. In any state the page can reach after loading the module, adding a provider
  that is not yet marked seen marks it and appends it to the sequence of the instance,
  where it then occurs exactly once. Every later \<open>addCustomStyle\<close> with the same object,
  whatever happened in between (\<open>ys\<close>, short of building the instance anew), changes
  nothing, and the provider still occurs exactly once.
\<close>

theorem addCustomStyle_once:
  assumes "\<not> seenByShadyCSS (heap (run xs (loadModule h imports st)) style)"
    and "New this \<notin> set ys"
  shows "seenByShadyCSS (heap (addCustomStyle this style (run xs (loadModule h imports st))) style)
       \<and> customStyles (registries (addCustomStyle this style (run xs (loadModule h imports st))) this)
           = customStyles (registries (run xs (loadModule h imports st)) this) @ [style]
       \<and> count_list (customStyles (registries
             (addCustomStyle this style (run xs (loadModule h imports st))) this)) style = 1
       \<and> addCustomStyle this style
             (run ys (addCustomStyle this style (run xs (loadModule h imports st))))
           = run ys (addCustomStyle this style (run xs (loadModule h imports st)))
       \<and> count_list (customStyles (registries
             (run ys (addCustomStyle this style (run xs (loadModule h imports st)))) this)) style = 1"
proof -
  let ?w = "run xs (loadModule h imports st)"
  let ?w1 = "addCustomStyle this style ?w"
  have absent: "style \<notin> set (customStyles (registries ?w this))"
    using assms(1) reachable_entries_seen by blast
  have seen: "seenByShadyCSS (heap ?w1 style)" by (simp add: add_seen)
  have app: "customStyles (registries ?w1 this) = customStyles (registries ?w this) @ [style]"
    using assms(1) by (simp add: add_customStyles)
  have one: "count_list (customStyles (registries ?w1 this)) style = 1"
    using absent by (simp add: app count_list_0_iff)
  have later: "addCustomStyle this style (run ys ?w1) = run ys ?w1"
    using seen by (simp add: add_noop run_seen_mono)
  have "count_list (customStyles (registries (run ys ?w1) this)) style = 1"
    using seen assms(2) one by (simp add: run_count_seen)
  with seen app one later show ?thesis by simp
qed

theorem addCustomStyle_once_witness:
  "\<not> seenByShadyCSS (heap (run [New 0, SetValidateCallback 0 (Some 7)]
        (loadModule (\<lambda>_. newStyle) False Loading)) 1)
   \<and> New 0 \<notin> set [AddCustomStyle 0 1, AddCustomStyle 0 2, AddCustomStyle 0 1]
   \<and> customStyles (registries (run [AddCustomStyle 0 1, AddCustomStyle 0 2, AddCustomStyle 0 1]
         (addCustomStyle 0 1 (run [New 0, SetValidateCallback 0 (Some 7)]
            (loadModule (\<lambda>_. newStyle) False Loading)))) 0) = [1, 2]
   \<and> count_list (customStyles (registries
         (run [AddCustomStyle 0 1, AddCustomStyle 0 2, AddCustomStyle 0 1]
         (addCustomStyle 0 1 (run [New 0, SetValidateCallback 0 (Some 7)]
            (loadModule (\<lambda>_. newStyle) False Loading)))) 0)) 1 = 1"
proof -
  let ?xs = "[New 0, SetValidateCallback 0 (Some 7)]"
  let ?ys = "[AddCustomStyle 0 1, AddCustomStyle 0 2, AddCustomStyle 0 1]"
  have h1: "\<not> seenByShadyCSS (heap (run ?xs (loadModule (\<lambda>_. newStyle) False Loading)) 1)"
    by (simp add: eval_defs)
  have h2: "New 0 \<notin> set ?ys" by simp
  have v: "customStyles (registries (run ?ys (addCustomStyle 0 1
      (run ?xs (loadModule (\<lambda>_. newStyle) False Loading)))) 0) = [1, 2]"
    by (simp add: eval_defs)
  from addCustomStyle_once[OF h1 h2] h1 h2 v show ?thesis by simp
qed

section \<open>Processing styles\<close>

text \<open>
  Claim C3. From module load on, along every run (any number of \<open>findStyles\<close> calls on any
  instance, with everything else the page may do in between), the trace holds at most one
  call of the transform callback for a given provider. The reason: a provider that carries
  the processed marker keeps it, a \<open>findStyles\<close> pass makes no call at all for it, and
  the pass leaves every sequence as it is; a sequence only ever grows at its end.
\<close>

theorem transform_at_most_once:
  "length (transformsOf p (trace (run xs (loadModule h imports st)))) \<le> 1
   \<and> (processedByShadyCSS (heap w p) \<longrightarrow>
         processedByShadyCSS (heap (run ys w) p)
       \<and> filter (\<lambda>e. eventStyle e = Some p) (trace (findStyles this (run ys w)))
           = filter (\<lambda>e. eventStyle e = Some p) (trace (run ys w)))
   \<and> customStyles (registries (findStyles this w) i) = customStyles (registries w i)
   \<and> (New i \<notin> set ys \<longrightarrow>
         prefix (customStyles (registries w i)) (customStyles (registries (run ys w) i)))"
proof -
  have "length (transformsOf p (trace (run xs (loadModule h imports st)))) \<le> 1"
    using run_once[of p "loadModule h imports st" xs]
    by (simp add: loadModule_def transformsOf_def)
  then show ?thesis
    by (simp add: run_processed_mono findStyles_skip findStyles_registries
        run_customStyles_prefix)
qed

theorem transform_at_most_once_witness:
  "processedByShadyCSS (heap (findStyles 0 (addCustomStyle 0 1 styledPage)) 1)
   \<and> New 0 \<notin> set [AddCustomStyle 0 2, FindStyles 0]
   \<and> transformsOf 1 (trace (run
         [New 0, SetTransformCallback 0 (Some 9), AddCustomStyle 0 1, FindStyles 0, FindStyles 0]
         (loadModule (\<lambda>_. newStyle) False Loading))) = [TransformCall 1 9 1]
   \<and> length (transformsOf 1 (trace (run
         [New 0, SetTransformCallback 0 (Some 9), AddCustomStyle 0 1, FindStyles 0, FindStyles 0]
         (loadModule (\<lambda>_. newStyle) False Loading)))) \<le> 1
   \<and> transformsOf 1 (trace (findStyles 0 (run [AddCustomStyle 0 2, FindStyles 0]
         (findStyles 0 (addCustomStyle 0 1 styledPage))))) = [TransformCall 1 9 1]
   \<and> filter (\<lambda>e. eventStyle e = Some 1) (trace (findStyles 0 (run [AddCustomStyle 0 2, FindStyles 0]
         (findStyles 0 (addCustomStyle 0 1 styledPage)))))
       = filter (\<lambda>e. eventStyle e = Some 1) (trace (run [AddCustomStyle 0 2, FindStyles 0]
         (findStyles 0 (addCustomStyle 0 1 styledPage))))
   \<and> prefix (customStyles (registries (findStyles 0 (addCustomStyle 0 1 styledPage)) 0))
        (customStyles (registries (run [AddCustomStyle 0 2, FindStyles 0]
           (findStyles 0 (addCustomStyle 0 1 styledPage))) 0))"
proof -
  let ?w = "findStyles 0 (addCustomStyle 0 1 styledPage)"
  let ?ys = "[AddCustomStyle 0 2, FindStyles 0]"
  have h1: "processedByShadyCSS (heap ?w 1)" by (simp add: find_defs)
  have h2: "New 0 \<notin> set ?ys" by simp
  have v: "transformsOf 1 (trace (findStyles 0 (run ?ys ?w))) = [TransformCall 1 9 1]"
    by (simp add: find_defs)
  have r: "transformsOf 1 (trace (run
         [New 0, SetTransformCallback 0 (Some 9), AddCustomStyle 0 1, FindStyles 0, FindStyles 0]
         (loadModule (\<lambda>_. newStyle) False Loading))) = [TransformCall 1 9 1]"
    by (simp add: find_defs)
  from transform_at_most_once[of 1
      "[New 0, SetTransformCallback 0 (Some 9), AddCustomStyle 0 1, FindStyles 0, FindStyles 0]"
      "\<lambda>_. newStyle" False Loading ?w ?ys 0 0] h1 h2 v r
  show ?thesis by simp
qed





text \<open>
  Claim C8. \<open>findStyles\<close> runs the loop body once for each index of the sequence, from
  the first to the last, and \<open>addCustomStyle\<close> puts a new provider at the end, so the
  order of the sequence is the order of insertion. In any state reachable from module
  load the calls a pass makes (reading the getter, setting attributes on the counterpart,
  calling the transform) come in that order: the old trace is kept, and of two calls
  added by the pass, the earlier one never belongs to an entry that sits behind the entry
  of the later one.
\<close>

theorem findStyles_insertion_order:
  "findStyles this w
     = fold (findStylesBody this) [0..<length (customStyles (registries w this))] w
   \<and> (\<not> seenByShadyCSS (heap w s) \<longrightarrow>
         customStyles (registries (addCustomStyle this s w) this)
           = customStyles (registries w this) @ [s])
   \<and> (let W = run xs (loadModule h imports st);
           cs = customStyles (registries W this);
           new = drop (length (trace W)) (trace (findStyles this W))
       in trace (findStyles this W) = trace W @ new
        \<and> (\<forall>m n i j. m < n \<and> n < length new \<and> i < length cs \<and> j < length cs
              \<and> eventStyle (new ! m) = Some (cs ! i) \<and> eventStyle (new ! n) = Some (cs ! j)
              \<longrightarrow> i \<le> j))"
proof -
  let ?W = "run xs (loadModule h imports st)"
  let ?cs = "customStyles (registries ?W this)"
  let ?new = "drop (length (trace ?W)) (trace (findStyles this ?W))"
  have "distinct ?cs" by (rule reachable_distinct)
  then obtain es where es: "trace (findStyles this ?W) = trace ?W @ es"
    "sorted_wrt (styleOrder ?cs) es"
    using findStyles_order by blast
  then have new: "?new = es" by simp
  have ord: "i \<le> j"
    if "m < n" "n < length ?new" "i < length ?cs" "j < length ?cs"
      "eventStyle (?new ! m) = Some (?cs ! i)" "eventStyle (?new ! n) = Some (?cs ! j)"
    for m n i j
  proof -
    from es(2) that(1,2) have "styleOrder ?cs (?new ! m) (?new ! n)"
      unfolding new by (simp add: sorted_wrt_iff_nth_less)
    with that(3-6) show ?thesis by (simp add: styleOrder_def)
  qed
  have pre: "trace (findStyles this ?W) = trace ?W @ ?new" using es(1) by simp
  have c1: "findStyles this w
     = fold (findStylesBody this) [0..<length (customStyles (registries w this))] w"
    by (rule findStyles_fold)
  have c2: "\<not> seenByShadyCSS (heap w s) \<longrightarrow>
         customStyles (registries (addCustomStyle this s w) this)
           = customStyles (registries w this) @ [s]"
    by (simp add: add_customStyles)
  have c3: "trace (findStyles this ?W) = trace ?W @ ?new
        \<and> (\<forall>m n i j. m < n \<and> n < length ?new \<and> i < length ?cs \<and> j < length ?cs
              \<and> eventStyle (?new ! m) = Some (?cs ! i) \<and> eventStyle (?new ! n) = Some (?cs ! j)
              \<longrightarrow> i \<le> j)"
    using pre ord by blast
  show ?thesis unfolding Let_def
    by (rule conjI[OF c1 conjI[OF c2 c3]])
qed

theorem findStyles_insertion_order_witness:
  "\<not> seenByShadyCSS (heap (run [New 0, SetTransformCallback 0 (Some 9),
          HostUpdate 1 None (Some 3) [(''id'', ''a'')], AddCustomStyle 0 1, AddCustomStyle 0 2]
        (loadModule (\<lambda>_. newStyle) False Loading)) 5)
   \<and> customStyles (registries (addCustomStyle 0 5 (run [New 0, SetTransformCallback 0 (Some 9),
          HostUpdate 1 None (Some 3) [(''id'', ''a'')], AddCustomStyle 0 1, AddCustomStyle 0 2]
        (loadModule (\<lambda>_. newStyle) False Loading))) 0) = [1, 2, 5]
   \<and> trace (findStyles 0 (run [New 0, SetTransformCallback 0 (Some 9),
          HostUpdate 1 None (Some 3) [(''id'', ''a'')], AddCustomStyle 0 1, AddCustomStyle 0 2]
        (loadModule (\<lambda>_. newStyle) False Loading)))
       = [SetAttributeCall 1 3 ''id'' ''a'', TransformCall 1 9 3, TransformCall 2 9 2]
   \<and> customStyles (registries (run [New 0, SetTransformCallback 0 (Some 9),
          HostUpdate 1 None (Some 3) [(''id'', ''a'')], AddCustomStyle 0 1, AddCustomStyle 0 2]
        (loadModule (\<lambda>_. newStyle) False Loading)) 0) = [1, 2]
   \<and> (1::nat) < 2 \<and> (2::nat) < 3 \<and> (0::nat) < 2 \<and> (0::nat) \<le> 1
   \<and> eventStyle ([SetAttributeCall 1 3 ''id'' ''a'', TransformCall 1 9 3, TransformCall 2 9 2]
         ! 1) = Some ([1, 2] ! 0)
   \<and> eventStyle ([SetAttributeCall 1 3 ''id'' ''a'', TransformCall 1 9 3, TransformCall 2 9 2]
         ! 2) = Some ([1, 2] ! 1)"
proof -
  let ?xs = "[New 0, SetTransformCallback 0 (Some 9),
          HostUpdate 1 None (Some 3) [(''id'', ''a'')], AddCustomStyle 0 1, AddCustomStyle 0 2]"
  let ?W = "run ?xs (loadModule (\<lambda>_. newStyle) False Loading)"
  have h: "\<not> seenByShadyCSS (heap ?W 5)" by (simp add: find_defs)
  have cs: "customStyles (registries ?W 0) = [1, 2]" by (simp add: find_defs)
  have t0: "trace ?W = []" by (simp add: find_defs)
  have t1: "trace (findStyles 0 ?W)
      = [SetAttributeCall 1 3 ''id'' ''a'', TransformCall 1 9 3, TransformCall 2 9 2]"
    by (simp add: find_defs)
  note T = findStyles_insertion_order[of 0 ?W 5 ?xs "\<lambda>_. newStyle" False Loading]
  from T[THEN conjunct2, THEN conjunct1] h cs
  have added: "customStyles (registries (addCustomStyle 0 5 ?W) 0) = [1, 2, 5]"
    by simp
  note order = T[THEN conjunct2, THEN conjunct2, unfolded Let_def t1 t0 cs, THEN conjunct2]
  have "(0::nat) \<le> 1"
    by (rule order[rule_format, of 1 2 0 1]) simp
  with h added t1 cs show ?thesis by simp
qed

text \<open>
  Claim C6. \<open>getStyleForCustomStyle\<close> returns what the getter yields when the provider has
  a \<open>getStyle\<close> method, calling it once, and the provider itself otherwise. Apart from
  that one call it changes nothing: the objects, the instances and the module-level
  variables are as before.
\<close>

theorem getStyleForCustomStyle_result:
  "(\<forall>r. getStyle (heap w c) = Some r \<longrightarrow>
        fst (getStyleForCustomStyle this c w) = r
      \<and> trace (snd (getStyleForCustomStyle this c w)) = trace w @ [GetStyleCall c])
   \<and> (getStyle (heap w c) = None \<longrightarrow>
        fst (getStyleForCustomStyle this c w) = Some c
      \<and> snd (getStyleForCustomStyle this c w) = w)
   \<and> snd (getStyleForCustomStyle this c w)
       = w\<lparr> trace := trace (snd (getStyleForCustomStyle this c w)) \<rparr>
   \<and> heap (snd (getStyleForCustomStyle this c w)) = heap w
   \<and> registries (snd (getStyleForCustomStyle this c w)) = registries w"
  by (auto simp: getStyleForCustomStyle_def emit_def split: option.splits)

theorem getStyleForCustomStyle_result_witness:
  "getStyle (heap (hostUpdate 1 (Some (Some 2)) None [] page) 1) = Some (Some 2)
   \<and> fst (getStyleForCustomStyle 0 1 (hostUpdate 1 (Some (Some 2)) None [] page)) = Some 2
   \<and> trace (snd (getStyleForCustomStyle 0 1 (hostUpdate 1 (Some (Some 2)) None [] page)))
       = [GetStyleCall 1]
   \<and> getStyle (heap page 1) = None
   \<and> getStyleForCustomStyle 0 1 page = (Some 1, page)"
proof -
  let ?u = "hostUpdate 1 (Some (Some 2)) None [] page"
  have u1: "getStyle (heap ?u 1) = Some (Some 2)" by (simp add: eval_defs)
  have u2: "trace ?u = []" by (simp add: eval_defs)
  have p1: "getStyle (heap page 1) = None" by (simp add: eval_defs)
  from getStyleForCustomStyle_result[of ?u 1 0] u1 u2
  have "fst (getStyleForCustomStyle 0 1 ?u) = Some 2
      \<and> trace (snd (getStyleForCustomStyle 0 1 ?u)) = [GetStyleCall 1]"
    by simp
  moreover from getStyleForCustomStyle_result[of page 1 0] p1
  have "getStyleForCustomStyle 0 1 page = (Some 1, page)"
    by (simp add: prod_eq_iff)
  ultimately show ?thesis using u1 p1 by simp
qed

section \<open>The callbacks and the markers\<close>





end
